theory Spec2Isabelle
  imports Main
begin

section \<open>The pattern library used by the router\<close>

text \<open>
  \<^verbatim>\<open>http_server.cpp\<close> compiles its patterns with \<^verbatim>\<open>std::regex\<close> (ECMAScript grammar,
  flag \<^verbatim>\<open>icase\<close>) and searches with \<^verbatim>\<open>std::regex_search\<close>. The standard library is
  modelled here for the part of the grammar that route templates are written in:
  literal characters, \<^verbatim>\<open>.\<close>, bracket expressions with ranges and negation, the class
  escapes \<^verbatim>\<open>\d \w \s\<close> and their negations, identity escapes of punctuation, capturing
  groups, alternation and the greedy quantifiers \<^verbatim>\<open>* + ?\<close>. A pattern that uses
  anything else (anchors, counted repetition, lazy quantifiers, look-ahead,
  back-references, non-capturing groups) is refused with \<open>unsupported\<close>, so the model
  never claims a result for a pattern it does not cover.
\<close>

datatype item = CChar char | CRange char char | CDigit | CWord | CSpace

datatype regex =
    Eps
  | Chr char
  | Dot
  | Bracket bool "item list"
  | Seq regex regex
  | Alt regex regex
  | Star regex
  | Group nat regex

datatype regex_error =
    error_paren | error_brack | error_badrepeat | error_escape | error_range | unsupported

record basic_regex =
  ast :: regex
  mark_count :: nat
  icase :: bool

subsection \<open>Characters\<close>

definition code :: "char \<Rightarrow> nat" where
  "code c = of_char c"

definition is_upper :: "char \<Rightarrow> bool" where
  "is_upper c = (65 \<le> code c \<and> code c \<le> 90)"

definition is_lower :: "char \<Rightarrow> bool" where
  "is_lower c = (97 \<le> code c \<and> code c \<le> 122)"

definition is_digit :: "char \<Rightarrow> bool" where
  "is_digit c = (48 \<le> code c \<and> code c \<le> 57)"

definition is_alnum :: "char \<Rightarrow> bool" where
  "is_alnum c = (is_upper c \<or> is_lower c \<or> is_digit c)"

definition is_space :: "char \<Rightarrow> bool" where
  "is_space c = (code c = 32 \<or> (9 \<le> code c \<and> code c \<le> 13))"

definition tolower :: "char \<Rightarrow> char" where
  "tolower c = (if is_upper c then char_of (code c + 32) else c)"

definition toupper :: "char \<Rightarrow> char" where
  "toupper c = (if is_lower c then char_of (code c - 32) else c)"

text \<open>Under \<^verbatim>\<open>icase\<close> both sides of a comparison are translated with \<open>tolower\<close>; a range
  is tried on the lower-case and on the upper-case form of the input character.\<close>

definition eq_char :: "bool \<Rightarrow> char \<Rightarrow> char \<Rightarrow> bool" where
  "eq_char ic a x = (if ic then tolower a = tolower x else a = x)"

definition in_range :: "char \<Rightarrow> char \<Rightarrow> char \<Rightarrow> bool" where
  "in_range lo hi x = (code lo \<le> code x \<and> code x \<le> code hi)"

fun in_item :: "bool \<Rightarrow> item \<Rightarrow> char \<Rightarrow> bool" where
  "in_item ic (CChar a) x = eq_char ic a x"
| "in_item ic (CRange lo hi) x =
     (if ic then in_range lo hi (tolower x) \<or> in_range lo hi (toupper x)
      else in_range lo hi x)"
| "in_item ic CDigit x = is_digit x"
| "in_item ic CWord x = (is_alnum x \<or> code x = 95)"
| "in_item ic CSpace x = is_space x"

definition in_bracket :: "bool \<Rightarrow> bool \<Rightarrow> item list \<Rightarrow> char \<Rightarrow> bool" where
  "in_bracket ic neg items x = ((\<exists>i \<in> set items. in_item ic i x) \<noteq> neg)"

definition line_terminator :: "char \<Rightarrow> bool" where
  "line_terminator c = (code c = 10 \<or> code c = 13)"

subsection \<open>Compiling a pattern\<close>

text \<open>
  The pattern is read one character at a time. A frame holds the alternatives already
  closed and the atoms of the alternative being read (both most recent first) and the
  number of the group it belongs to (0 for the whole pattern). Groups are numbered by
  their opening parenthesis, from 1.
\<close>

type_synonym frame = "regex list \<times> regex list \<times> nat"

datatype prev = PStart | PAtom | PQuant | POpen | PBar

datatype mode =
    Normal
  | Escape
  | ClassOpen
  | Class bool "item list" "char option" bool
  | ClassEscape bool "item list" "char option" bool

record pstate =
  cur_frame :: frame
  frames :: "frame list"
  ngroups :: nat
  prev_tok :: prev
  pmode :: mode

fun mk_seq :: "regex list \<Rightarrow> regex" where
  "mk_seq [] = Eps"
| "mk_seq [r] = r"
| "mk_seq (r # rs) = Seq r (mk_seq rs)"

fun mk_alt :: "regex list \<Rightarrow> regex" where
  "mk_alt [] = Eps"
| "mk_alt [r] = r"
| "mk_alt (r # rs) = Alt r (mk_alt rs)"

definition close_frame :: "frame \<Rightarrow> regex" where
  "close_frame f = (case f of (alts, cur, g) \<Rightarrow> mk_alt (rev (mk_seq (rev cur) # alts)))"

definition push_atom :: "regex \<Rightarrow> pstate \<Rightarrow> pstate" where
  "push_atom a st =
     (case cur_frame st of
        (alts, cur, g) \<Rightarrow>
          st\<lparr>cur_frame := (alts, a # cur, g), prev_tok := PAtom, pmode := Normal\<rparr>)"

definition quantify :: "(regex \<Rightarrow> regex) \<Rightarrow> char \<Rightarrow> pstate \<Rightarrow> regex_error + pstate" where
  "quantify q c st =
     (case cur_frame st of (alts, cur, g) \<Rightarrow>
        (case prev_tok st of
           PAtom \<Rightarrow>
             (case cur of
                [] \<Rightarrow> Inl error_badrepeat
              | a # as \<Rightarrow> Inr (st\<lparr>cur_frame := (alts, q a # as, g), prev_tok := PQuant\<rparr>))
         | PQuant \<Rightarrow> if c = CHR ''?'' then Inl unsupported else Inl error_badrepeat
         | POpen \<Rightarrow> if c = CHR ''?'' then Inl unsupported else Inl error_badrepeat
         | _ \<Rightarrow> Inl error_badrepeat))"

definition is_punct :: "char \<Rightarrow> bool" where
  "is_punct c = (33 \<le> code c \<and> code c \<le> 126 \<and> \<not> is_alnum c \<and> code c \<noteq> 95)"

definition escape_atom :: "char \<Rightarrow> regex_error + regex" where
  "escape_atom c =
     (if c = CHR ''d'' then Inr (Bracket False [CDigit])
      else if c = CHR ''D'' then Inr (Bracket True [CDigit])
      else if c = CHR ''w'' then Inr (Bracket False [CWord])
      else if c = CHR ''W'' then Inr (Bracket True [CWord])
      else if c = CHR ''s'' then Inr (Bracket False [CSpace])
      else if c = CHR ''S'' then Inr (Bracket True [CSpace])
      else if c = CHR ''t'' then Inr (Chr (char_of (9::nat)))
      else if c = CHR ''n'' then Inr (Chr (char_of (10::nat)))
      else if c = CHR ''v'' then Inr (Chr (char_of (11::nat)))
      else if c = CHR ''f'' then Inr (Chr (char_of (12::nat)))
      else if c = CHR ''r'' then Inr (Chr (char_of (13::nat)))
      else if is_punct c then Inr (Chr c)
      else if is_digit c \<or> c = CHR ''b'' \<or> c = CHR ''B'' \<or> c = CHR ''c''
              \<or> c = CHR ''x'' \<or> c = CHR ''u'' then Inl unsupported
      else Inl error_escape)"

definition escape_item :: "char \<Rightarrow> regex_error + item" where
  "escape_item c =
     (if c = CHR ''d'' then Inr CDigit
      else if c = CHR ''w'' then Inr CWord
      else if c = CHR ''s'' then Inr CSpace
      else if c = CHR ''t'' then Inr (CChar (char_of (9::nat)))
      else if c = CHR ''n'' then Inr (CChar (char_of (10::nat)))
      else if c = CHR ''v'' then Inr (CChar (char_of (11::nat)))
      else if c = CHR ''f'' then Inr (CChar (char_of (12::nat)))
      else if c = CHR ''r'' then Inr (CChar (char_of (13::nat)))
      else if is_punct c then Inr (CChar c)
      else if is_alnum c then Inl unsupported
      else Inl error_escape)"

definition pending_items :: "item list \<Rightarrow> char option \<Rightarrow> bool \<Rightarrow> item list" where
  "pending_items items pend dash =
     (if dash then [CChar (CHR ''-'')] else []) @
     (case pend of None \<Rightarrow> [] | Some p \<Rightarrow> [CChar p]) @ items"

definition class_char :: "bool \<Rightarrow> item list \<Rightarrow> char option \<Rightarrow> bool \<Rightarrow> char \<Rightarrow> pstate
    \<Rightarrow> regex_error + pstate" where
  "class_char neg items pend dash c st =
     (if c = CHR '']'' then
        Inr (push_atom (Bracket neg (rev (pending_items items pend dash))) st)
      else if c = CHR 0x5C then Inr (st\<lparr>pmode := ClassEscape neg items pend dash\<rparr>)
      else if c = CHR ''['' then Inl unsupported
      else if c = CHR ''-'' \<and> pend \<noteq> None \<and> \<not> dash then
        Inr (st\<lparr>pmode := Class neg items pend True\<rparr>)
      else if dash then
        (case pend of
           None \<Rightarrow> Inl error_range
         | Some p \<Rightarrow>
             if code p \<le> code c then Inr (st\<lparr>pmode := Class neg (CRange p c # items) None False\<rparr>)
             else Inl error_range)
      else Inr (st\<lparr>pmode := Class neg (pending_items items pend False) (Some c) False\<rparr>))"

definition normal_char :: "char \<Rightarrow> pstate \<Rightarrow> regex_error + pstate" where
  "normal_char c st =
     (case cur_frame st of (alts, cur, g) \<Rightarrow>
        if c = CHR ''('' then
          Inr (st\<lparr>cur_frame := ([], [], Suc (ngroups st)), frames := cur_frame st # frames st,
                  ngroups := Suc (ngroups st), prev_tok := POpen\<rparr>)
        else if c = CHR '')'' then
          (case frames st of
             [] \<Rightarrow> Inl error_paren
           | (palts, pcur, pg) # fs \<Rightarrow>
               Inr (st\<lparr>cur_frame := (palts, Group g (close_frame (cur_frame st)) # pcur, pg),
                       frames := fs, prev_tok := PAtom\<rparr>))
        else if c = CHR ''|'' then
          Inr (st\<lparr>cur_frame := (mk_seq (rev cur) # alts, [], g), prev_tok := PBar\<rparr>)
        else if c = CHR ''*'' then quantify Star c st
        else if c = CHR ''+'' then quantify (\<lambda>a. Seq a (Star a)) c st
        else if c = CHR ''?'' then quantify (\<lambda>a. Alt a Eps) c st
        else if c = CHR ''.'' then Inr (push_atom Dot st)
        else if c = CHR ''['' then Inr (st\<lparr>pmode := ClassOpen\<rparr>)
        else if c = CHR 0x5C then Inr (st\<lparr>pmode := Escape\<rparr>)
        else if c = CHR ''^'' \<or> c = CHR ''$'' \<or> c = CHR ''{'' \<or> c = CHR ''}'' \<or> c = CHR '']''
          then Inl unsupported
        else Inr (push_atom (Chr c) st))"

definition step :: "pstate \<Rightarrow> char \<Rightarrow> regex_error + pstate" where
  "step st c =
     (case pmode st of
        Normal \<Rightarrow> normal_char c st
      | Escape \<Rightarrow> (case escape_atom c of Inl e \<Rightarrow> Inl e | Inr a \<Rightarrow> Inr (push_atom a st))
      | ClassOpen \<Rightarrow>
          if c = CHR ''^'' then Inr (st\<lparr>pmode := Class True [] None False\<rparr>)
          else class_char False [] None False c st
      | Class neg items pend dash \<Rightarrow> class_char neg items pend dash c st
      | ClassEscape neg items pend dash \<Rightarrow>
          (case escape_item c of
             Inl e \<Rightarrow> Inl e
           | Inr i \<Rightarrow>
               if dash then Inl unsupported
               else Inr (st\<lparr>pmode := Class neg (i # pending_items items pend False) None False\<rparr>)))"

fun run :: "pstate \<Rightarrow> string \<Rightarrow> regex_error + pstate" where
  "run st [] = Inr st"
| "run st (c # cs) = (case step st c of Inl e \<Rightarrow> Inl e | Inr st' \<Rightarrow> run st' cs)"

definition finish :: "bool \<Rightarrow> pstate \<Rightarrow> regex_error + basic_regex" where
  "finish ic st =
     (case pmode st of
        Normal \<Rightarrow>
          (case frames st of
             [] \<Rightarrow> Inr \<lparr>ast = close_frame (cur_frame st), mark_count = ngroups st, icase = ic\<rparr>
           | f # fs \<Rightarrow> Inl error_paren)
      | Escape \<Rightarrow> Inl error_escape
      | _ \<Rightarrow> Inl error_brack)"

definition regex_compile :: "string \<Rightarrow> bool \<Rightarrow> regex_error + basic_regex" where
  "regex_compile p ic =
     (case run \<lparr>cur_frame = ([], [], 0), frames = [], ngroups = 0, prev_tok = PStart, pmode = Normal\<rparr> p of
        Inl e \<Rightarrow> Inl e
      | Inr st \<Rightarrow> finish ic st)"

subsection \<open>Matching\<close>

text \<open>
  A backtracking matcher: \<open>ms ic r (s, c)\<close> lists, in the order in which the library tries
  them, every way of matching \<open>r\<close> at the front of \<open>s\<close>, each as the input left over and
  the captures made so far. Quantifiers are greedy, the left alternative is tried first,
  and an iteration of \<open>*\<close> that consumes nothing is not repeated. Group \<open>n\<close> is stored
  at position \<open>n - 1\<close> of the captures; a group keeps what it captured last.
\<close>

type_synonym captures = "string option list"

function ms :: "bool \<Rightarrow> regex \<Rightarrow> string \<times> captures \<Rightarrow> (string \<times> captures) list" where
  "ms ic Eps (s, c) = [(s, c)]"
| "ms ic (Chr a) (s, c) =
     (case s of [] \<Rightarrow> [] | x # xs \<Rightarrow> if eq_char ic a x then [(xs, c)] else [])"
| "ms ic Dot (s, c) =
     (case s of [] \<Rightarrow> [] | x # xs \<Rightarrow> if line_terminator x then [] else [(xs, c)])"
| "ms ic (Bracket neg items) (s, c) =
     (case s of [] \<Rightarrow> [] | x # xs \<Rightarrow> if in_bracket ic neg items x then [(xs, c)] else [])"
| "ms ic (Seq r1 r2) (s, c) = concat (map (ms ic r2) (ms ic r1 (s, c)))"
| "ms ic (Alt r1 r2) (s, c) = ms ic r1 (s, c) @ ms ic r2 (s, c)"
| "ms ic (Star r) (s, c) =
     concat (map (\<lambda>p. if length (fst p) < length s then ms ic (Star r) p else [])
                 (ms ic r (s, c))) @ [(s, c)]"
| "ms ic (Group n r) (s, c) =
     map (\<lambda>p. (fst p, (snd p)[n - 1 := Some (take (length s - length (fst p)) s)]))
         (ms ic r (s, c))"
  by pat_completeness auto
termination
  by (relation "measures [\<lambda>(ic, r, s, c). size r, \<lambda>(ic, r, s, c). length s]") auto

text \<open>\<^verbatim>\<open>std::smatch\<close>: the text before the match, the match (\<^verbatim>\<open>m[0]\<close>), the groups
  (\<^verbatim>\<open>m[1]\<close>, ...; a group that took no part is unset) and the text after the match.\<close>

record smatch =
  prefix :: string
  whole :: string
  subs :: captures
  suffix :: string

definition msize :: "smatch \<Rightarrow> nat" where
  "msize m = Suc (length (subs m))"

definition str :: "smatch \<Rightarrow> nat \<Rightarrow> string" where
  "str m i =
     (if i = 0 then whole m
      else if i \<le> length (subs m) then (case subs m ! (i - 1) of None \<Rightarrow> [] | Some w \<Rightarrow> w)
      else [])"

definition match_here :: "basic_regex \<Rightarrow> string \<Rightarrow> string \<Rightarrow> smatch option" where
  "match_here rx pre s =
     (case ms (icase rx) (ast rx) (s, replicate (mark_count rx) None) of
        [] \<Rightarrow> None
      | (s', c) # _ \<Rightarrow>
          Some \<lparr>prefix = pre, whole = take (length s - length s') s, subs = c, suffix = s'\<rparr>)"

fun search_from :: "basic_regex \<Rightarrow> string \<Rightarrow> string \<Rightarrow> smatch option" where
  "search_from rx pre [] = match_here rx pre []"
| "search_from rx pre (x # xs) =
     (case match_here rx pre (x # xs) of
        Some m \<Rightarrow> Some m
      | None \<Rightarrow> search_from rx (pre @ [x]) xs)"

text \<open>\<^verbatim>\<open>std::regex_search(s, m, rx)\<close>: the leftmost match anywhere in \<open>s\<close>, or none. The
  start positions are tried from the left, the end of \<open>s\<close> included.\<close>

definition regex_search :: "string \<Rightarrow> basic_regex \<Rightarrow> smatch option" where
  "regex_search s rx = search_from rx [] s"

subsection \<open>What the matcher finds\<close>

text \<open>The language of a pattern, as sets of strings, against which the matcher is
  checked: whatever it consumes is a word of the language, and it never looks beyond
  what it consumes, so text appended to the input does not take a match away.\<close>

inductive_set star :: "string set \<Rightarrow> string set" for A :: "string set" where
  star_nil: "[] \<in> star A"
| star_step: "u \<in> A \<Longrightarrow> v \<in> star A \<Longrightarrow> u @ v \<in> star A"

fun lang :: "bool \<Rightarrow> regex \<Rightarrow> string set" where
  "lang ic Eps = {[]}"
| "lang ic (Chr a) = {[x] | x. eq_char ic a x}"
| "lang ic Dot = {[x] | x. \<not> line_terminator x}"
| "lang ic (Bracket neg items) = {[x] | x. in_bracket ic neg items x}"
| "lang ic (Seq r1 r2) = {u @ v | u v. u \<in> lang ic r1 \<and> v \<in> lang ic r2}"
| "lang ic (Alt r1 r2) = lang ic r1 \<union> lang ic r2"
| "lang ic (Star r) = star (lang ic r)"
| "lang ic (Group n r) = lang ic r"

lemma ms_sound_aux:
  "(s', c') \<in> set (ms ic r p) \<Longrightarrow>
     \<exists>w. fst p = w @ s' \<and> w \<in> lang ic r \<and> length c' = length (snd p)"
proof (induction ic r p arbitrary: s' c' rule: ms.induct)
  case (1 ic s c)
  then show ?case by simp
next
  case (2 ic a s c)
  then show ?case by (cases s) (auto split: if_splits)
next
  case (3 ic s c)
  then show ?case by (cases s) (auto split: if_splits)
next
  case (4 ic neg items s c)
  then show ?case by (cases s) (auto split: if_splits)
next
  case (5 ic r1 r2 s c)
  from "5.prems" obtain s1 c1 where
    a: "(s1, c1) \<in> set (ms ic r1 (s, c))" and b: "(s', c') \<in> set (ms ic r2 (s1, c1))"
    by auto
  from "5.IH"(1)[OF a] obtain u where u: "s = u @ s1" "u \<in> lang ic r1" "length c1 = length c"
    by auto
  from "5.IH"(2)[OF a b] obtain v where v: "s1 = v @ s'" "v \<in> lang ic r2" "length c' = length c1"
    by auto
  from u v have "s = (u @ v) @ s'" "u @ v \<in> lang ic (Seq r1 r2)" "length c' = length c"
    by auto
  then show ?case unfolding fst_conv snd_conv by blast
next
  case (6 ic r1 r2 s c)
  then show ?case by fastforce
next
  case (7 ic r s c)
  show ?case
  proof (cases "(s', c') = (s, c)")
    case True
    then show ?thesis by (auto intro: star.intros)
  next
    case False
    with "7.prems" obtain s1 c1 where
      a: "(s1, c1) \<in> set (ms ic r (s, c))" and l: "length s1 < length s"
      and b: "(s', c') \<in> set (ms ic (Star r) (s1, c1))"
      by (auto split: if_splits)
    from "7.IH"(1)[OF a] obtain u where u: "s = u @ s1" "u \<in> lang ic r" "length c1 = length c"
      by auto
    from l have l': "length (fst (s1, c1)) < length s" by simp
    from "7.IH"(2)[OF a l' b] obtain v where
      v: "s1 = v @ s'" "v \<in> lang ic (Star r)" "length c' = length c1"
      by auto
    from u v have "s = (u @ v) @ s'" "u @ v \<in> lang ic (Star r)" "length c' = length c"
      by (auto intro: star.intros)
    then show ?thesis unfolding fst_conv snd_conv by blast
  qed
next
  case (8 ic n r s c)
  then show ?case by fastforce
qed

lemma ms_sound:
  "(s', c') \<in> set (ms ic r (s, c)) \<Longrightarrow> \<exists>w. s = w @ s' \<and> w \<in> lang ic r \<and> length c' = length c"
  using ms_sound_aux[of s' c' ic r "(s, c)"] by simp



lemma match_here_Some:
  assumes "match_here rx pre s = Some m"
  shows "prefix m = pre \<and> s = whole m @ suffix m \<and> whole m \<in> lang (icase rx) (ast rx)
         \<and> length (subs m) = mark_count rx"
proof -
  from assms obtain s' c rest where
    ms: "ms (icase rx) (ast rx) (s, replicate (mark_count rx) None) = (s', c) # rest"
    and m: "m = \<lparr>prefix = pre, whole = take (length s - length s') s, subs = c, suffix = s'\<rparr>"
    by (auto simp: match_here_def split: list.splits)
  from ms have "(s', c) \<in> set (ms (icase rx) (ast rx) (s, replicate (mark_count rx) None))"
    by simp
  from ms_sound[OF this] obtain w where
    w: "s = w @ s'" "w \<in> lang (icase rx) (ast rx)" "length c = mark_count rx"
    by auto
  with m show ?thesis by simp
qed

lemma search_from_Some:
  "search_from rx pre s = Some m \<Longrightarrow>
     pre @ s = prefix m @ whole m @ suffix m \<and> whole m \<in> lang (icase rx) (ast rx)
     \<and> length (subs m) = mark_count rx"
proof (induction s arbitrary: pre)
  case Nil
  then show ?case using match_here_Some[of rx pre "[]" m] by auto
next
  case (Cons x xs)
  show ?case
  proof (cases "match_here rx pre (x # xs)")
    case None
    with Cons.prems have "search_from rx (pre @ [x]) xs = Some m" by simp
    from Cons.IH[OF this] show ?thesis by simp
  next
    case (Some m')
    with Cons.prems have "m' = m" by simp
    with Some match_here_Some[of rx pre "x # xs" m] show ?thesis by simp
  qed
qed

lemma regex_search_Some:
  "regex_search s rx = Some m \<Longrightarrow>
     s = prefix m @ whole m @ suffix m \<and> whole m \<in> lang (icase rx) (ast rx)
     \<and> msize m = Suc (mark_count rx)"
  using search_from_Some[of rx "[]" s m] by (simp add: regex_search_def msize_def)

section \<open>Requests, responses and routes\<close>

text \<open>Modelled from the spec: the classes \<^verbatim>\<open>http_request\<close> and \<^verbatim>\<open>http_response\<close> and
  the enumeration \<^verbatim>\<open>Method\<close> are declared in headers outside \<^verbatim>\<open>http_server.cpp\<close>. The
  spec gives a request its method, its path, its headers, its body and a mapping from
  parameter names to captured values, a response its status, headers and body, and a
  route a method constraint that is a method or \<open>ANY\<close>.\<close>

datatype Method = ANY | GET | POST | PUT | DELETE | HEAD | OPTIONS

record http_request =
  req_method :: Method
  path :: string
  headers :: "(string \<times> string) list"
  body :: string
  parameters :: "string \<rightharpoonup> string"

datatype http_status = HTTP_OK | HTTP_NOT_FOUND | HTTP_STATUS nat

record http_response =
  status :: http_status
  resp_headers :: "(string \<times> string) list"
  resp_body :: string

text \<open>Modelled from the spec: \<^verbatim>\<open>http_response::not_found\<close> is defined outside
  \<^verbatim>\<open>http_server.cpp\<close>; the spec says that it makes the response a standard not-found
  response, carrying the not-found status.\<close>

definition not_found :: "http_response \<Rightarrow> http_response" where
  "not_found resp = resp\<lparr>status := HTTP_NOT_FOUND\<rparr>"

text \<open>A handler is a member function of a controller; it may change both the request
  and the response it is given.\<close>

type_synonym 'c handler_t = "'c \<Rightarrow> http_request \<Rightarrow> http_response \<Rightarrow> http_request \<times> http_response"

record 'c http_route =
  is_re :: bool
  route_method :: Method
  route_path :: string
  controller :: 'c
  handler :: "'c handler_t"
  names :: "string list"
  re :: basic_regex

subsection \<open>Compiling a route\<close>

text \<open>The pattern \<^verbatim>\<open>:([_a-z0-9]+)\(([^\)]*)\)\<close> (character \<open>0x5C\<close> is the backslash).\<close>

definition NAMED_PARAM_PATTERN :: string where
  "NAMED_PARAM_PATTERN =
     '':([_a-z0-9]+)'' @ [CHR 0x5C] @ ''(([^'' @ [CHR 0x5C] @ '')]*)'' @ [CHR 0x5C] @ '')''"

definition NAMED_PARAM_PARSER :: basic_regex where
  "NAMED_PARAM_PARSER = projr (regex_compile NAMED_PARAM_PATTERN True)"

text \<open>Modelled from the spec: \<^verbatim>\<open>strings::replace\<close> is defined outside
  \<^verbatim>\<open>http_server.cpp\<close>; the spec says that the token is rewritten in place to a
  capturing group. Every occurrence of \<open>from\<close> in the string is rewritten to \<open>to\<close>, from
  the left, and the text written is not searched again.\<close>

function replace :: "string \<Rightarrow> string \<Rightarrow> string \<Rightarrow> string" where
  "replace [] from to = []"
| "replace (c # cs) from to =
     (if from \<noteq> [] \<and> take (length from) (c # cs) = from
      then to @ replace (drop (length from) (c # cs)) from to
      else c # replace cs from to)"
  by pat_completeness auto
termination
  by (relation "measure (\<lambda>(s, from, to). length s)") (auto simp: neq_Nil_conv)

text \<open>The token syntax \<^verbatim>\<open>:name(regex-expr)\<close> of a path template, stated on its own: a
  colon, a non-empty name of letters, digits and underscores, and a parenthesised
  expression that holds no closing parenthesis.\<close>

definition is_name_char :: "char \<Rightarrow> bool" where
  "is_name_char c = (c = CHR ''_'' \<or> is_alnum c)"

definition is_token :: "string \<Rightarrow> bool" where
  "is_token w = (\<exists>name expr. w = '':'' @ name @ ''('' @ expr @ '')'' \<and> name \<noteq> []
       \<and> (\<forall>c \<in> set name. is_name_char c) \<and> CHR '')'' \<notin> set expr)"

definition has_token :: "string \<Rightarrow> bool" where
  "has_token p = (\<exists>pre w post. p = pre @ w @ post \<and> is_token w)"

lemma NAMED_PARAM_PARSER_compiled:
  "regex_compile NAMED_PARAM_PATTERN True =
     Inr \<lparr>ast =
        Seq (Chr CHR '':'')
         (Seq (Group 1
                (Seq (Bracket False
                       [CChar CHR ''_'', CRange CHR ''a'' CHR ''z'',
                        CRange CHR ''0'' CHR ''9''])
                  (Star
                    (Bracket False
                      [CChar CHR ''_'', CRange CHR ''a'' CHR ''z'',
                       CRange CHR ''0'' CHR ''9'']))))
           (Seq (Chr CHR ''('')
             (Seq (Group 2 (Star (Bracket True [CChar CHR '')''])))
               (Chr CHR '')'')))),
        mark_count = 2, icase = True\<rparr>"
  by code_simp


lemma NAMED_PARAM_PARSER_eq:
  "NAMED_PARAM_PARSER =
     \<lparr>ast =
        Seq (Chr CHR '':'')
         (Seq (Group 1
                (Seq (Bracket False
                       [CChar CHR ''_'', CRange CHR ''a'' CHR ''z'',
                        CRange CHR ''0'' CHR ''9''])
                  (Star
                    (Bracket False
                      [CChar CHR ''_'', CRange CHR ''a'' CHR ''z'',
                       CRange CHR ''0'' CHR ''9'']))))
           (Seq (Chr CHR ''('')
             (Seq (Group 2 (Star (Bracket True [CChar CHR '')''])))
               (Chr CHR '')'')))),
        mark_count = 2, icase = True\<rparr>"
  unfolding NAMED_PARAM_PARSER_def NAMED_PARAM_PARSER_compiled by simp

lemma eq_char_caseless:
  assumes "\<not> is_upper a" "\<not> is_lower a" "eq_char True a x"
  shows "x = a"
proof (cases "is_upper x")
  case True
  then have "code (tolower x) = code x + 32"
    by (simp add: tolower_def code_def is_upper_def)
  with True have "is_lower (tolower x)" by (simp add: is_lower_def is_upper_def)
  with assms show ?thesis by (simp add: eq_char_def tolower_def)
next
  case False
  with assms show ?thesis by (simp add: eq_char_def tolower_def)
qed

lemma name_class:
  assumes "in_bracket True False [CChar CHR ''_'', CRange CHR ''a'' CHR ''z'', CRange CHR ''0'' CHR ''9''] x"
  shows "is_name_char x"
proof -
  have lo: "code (tolower x) = (if is_upper x then code x + 32 else code x)"
    by (simp add: tolower_def code_def is_upper_def)
  have up: "code (toupper x) = (if is_lower x then code x - 32 else code x)"
  proof (cases "is_lower x")
    case True
    then have "code x - 32 < 256" unfolding is_lower_def by arith
    with True show ?thesis by (simp add: toupper_def code_def)
  next
    case False
    then show ?thesis by (simp add: toupper_def)
  qed
  have us: "eq_char True CHR ''_'' x \<Longrightarrow> x = CHR ''_''"
    by (rule eq_char_caseless) (simp_all add: is_upper_def is_lower_def code_def)
  have cs: "code CHR ''a'' = 97" "code CHR ''z'' = 122" "code CHR ''0'' = 48"
    "code CHR ''9'' = 57"
    by (simp_all add: code_def)
  from assms us show ?thesis
    unfolding in_bracket_def is_name_char_def is_alnum_def
    by (auto simp: in_range_def lo up cs is_upper_def is_lower_def is_digit_def
             split: if_splits)
qed

lemma star_chars: "w \<in> star {[x] | x. P x} \<Longrightarrow> \<forall>x \<in> set w. P x"
  by (induction rule: star.induct) auto

lemma not_paren_class:
  "in_bracket True True [CChar CHR '')''] x \<Longrightarrow> x \<noteq> CHR '')''"
  by (auto simp: in_bracket_def eq_char_def)

lemma lang_NAMED_PARAM_PARSER:
  assumes "w \<in> lang (icase NAMED_PARAM_PARSER) (ast NAMED_PARAM_PARSER)"
  shows "is_token w"
proof -
  let ?N = "Bracket False [CChar CHR ''_'', CRange CHR ''a'' CHR ''z'', CRange CHR ''0'' CHR ''9'']"
  let ?E = "Bracket True [CChar CHR '')'']"
  have seqE: "\<exists>u v. x = u @ v \<and> u \<in> lang True r1 \<and> v \<in> lang True r2"
    if "x \<in> lang True (Seq r1 r2)" for x r1 r2
    using that by auto
  from assms have "w \<in> lang True (Seq (Chr CHR '':'') (Seq (Group 1 (Seq ?N (Star ?N)))
      (Seq (Chr CHR ''('') (Seq (Group 2 (Star ?E)) (Chr CHR '')'')))))"
    unfolding NAMED_PARAM_PARSER_eq by simp
  from seqE[OF this] obtain a w1 where w0: "w = a @ w1" and a: "a \<in> lang True (Chr CHR '':'')"
    and w1: "w1 \<in> lang True (Seq (Group 1 (Seq ?N (Star ?N)))
      (Seq (Chr CHR ''('') (Seq (Group 2 (Star ?E)) (Chr CHR '')''))))"
    by blast
  from seqE[OF w1] obtain n w2 where w1': "w1 = n @ w2"
    and n: "n \<in> lang True (Group 1 (Seq ?N (Star ?N)))"
    and w2: "w2 \<in> lang True (Seq (Chr CHR ''('') (Seq (Group 2 (Star ?E)) (Chr CHR '')'')))"
    by blast
  from n have "n \<in> lang True (Seq ?N (Star ?N))" by simp
  from seqE[OF this] obtain n1 n2 where n': "n = n1 @ n2" and n1: "n1 \<in> lang True ?N"
    and n2s: "n2 \<in> lang True (Star ?N)"
    by blast
  from seqE[OF w2] obtain b w3 where w2': "w2 = b @ w3" and b: "b \<in> lang True (Chr CHR ''('')"
    and w3: "w3 \<in> lang True (Seq (Group 2 (Star ?E)) (Chr CHR '')''))"
    by blast
  from seqE[OF w3] obtain e c where w3': "w3 = e @ c" and es: "e \<in> lang True (Group 2 (Star ?E))"
    and c: "c \<in> lang True (Chr CHR '')'')"
    by blast
  from n2s have n2: "n2 \<in> star (lang True ?N)" by simp
  from es have e: "e \<in> star (lang True ?E)" by simp
  from w0 w1' n' w2' w3' have w: "w = a @ (n1 @ n2) @ b @ e @ c" by simp
  have a': "a = '':''" using a eq_char_caseless[of "CHR '':''"]
    by (auto simp: is_upper_def is_lower_def code_def)
  have b': "b = ''(''" using b eq_char_caseless[of "CHR ''(''"]
    by (auto simp: is_upper_def is_lower_def code_def)
  have c': "c = '')''" using c eq_char_caseless[of "CHR '')''"]
    by (auto simp: is_upper_def is_lower_def code_def)
  from n1 obtain x where x: "n1 = [x]" "is_name_char x" using name_class by auto
  from n2 have "\<forall>x \<in> set n2. in_bracket True False
      [CChar CHR ''_'', CRange CHR ''a'' CHR ''z'', CRange CHR ''0'' CHR ''9''] x"
    unfolding lang.simps by (rule star_chars)
  then have n2': "\<forall>x \<in> set n2. is_name_char x" using name_class by blast
  from e have "\<forall>x \<in> set e. in_bracket True True [CChar CHR '')''] x"
    unfolding lang.simps by (rule star_chars)
  then have e': "CHR '')'' \<notin> set e" using not_paren_class by blast
  from x n2' have nm: "n1 @ n2 \<noteq> []" "\<forall>c \<in> set (n1 @ n2). is_name_char c" by auto
  show ?thesis unfolding is_token_def
    using w a' b' c' nm e' by blast
qed


lemma regex_search_token:
  assumes "regex_search tmp NAMED_PARAM_PARSER = Some m"
  shows "tmp = prefix m @ whole m @ suffix m \<and> is_token (whole m) \<and> msize m = 3"
proof -
  from regex_search_Some[OF assms] lang_NAMED_PARAM_PARSER[of "whole m"]
  show ?thesis by (simp add: NAMED_PARAM_PARSER_eq)
qed

lemma is_token_length: "is_token w \<Longrightarrow> 4 \<le> length w"
  by (auto simp: is_token_def neq_Nil_conv)

lemma regex_search_progress:
  assumes "regex_search tmp NAMED_PARAM_PARSER = Some m"
  shows "length (suffix m) + 4 \<le> length tmp"
proof -
  from regex_search_token[OF assms] have "tmp = prefix m @ whole m @ suffix m"
    and "4 \<le> length (whole m)"
    by (simp_all add: is_token_length)
  then have "length tmp = length (prefix m) + length (whole m) + length (suffix m)"
    by (metis length_append add.assoc)
  with \<open>4 \<le> length (whole m)\<close> show ?thesis by simp
qed

text \<open>The loop of the constructor: \<open>tmp\<close> is the text still to be searched, \<open>this\<close> the
  route under construction.\<close>

function rewrite_loop :: "string \<Rightarrow> 'c http_route \<Rightarrow> 'c http_route" where
  "rewrite_loop tmp this =
     (case regex_search tmp NAMED_PARAM_PARSER of
        None \<Rightarrow> this
      | Some m \<Rightarrow>
          if msize m = 3 then
            rewrite_loop (suffix m)
              (this\<lparr>is_re := True,
                    route_path := replace (route_path this) (str m 0) (''('' @ str m 2 @ '')''),
                    names := names this @ [str m 1]\<rparr>)
          else this)"
  by pat_completeness auto
termination
proof (relation "measure (\<lambda>(tmp, this). length tmp)")
  show "wf (measure (\<lambda>(tmp, this :: 'c http_route). length tmp))" by simp
next
  fix tmp :: string and this :: "'c http_route" and m
  assume "regex_search tmp NAMED_PARAM_PARSER = Some m"
  from regex_search_progress[OF this]
  show "((suffix m,
          this\<lparr>is_re := True,
               route_path := replace (route_path this) (str m 0) (''('' @ str m 2 @ '')''),
               names := names this @ [str m 1]\<rparr>), tmp, this)
        \<in> measure (\<lambda>(tmp, this). length tmp)"
    by simp
qed

declare rewrite_loop.simps [simp del]

text \<open>A default-constructed \<^verbatim>\<open>std::regex\<close>.\<close>

definition empty_regex :: basic_regex where
  "empty_regex = \<lparr>ast = Eps, mark_count = 0, icase = False\<rparr>"

text \<open>The constructor. A \<^verbatim>\<open>std::regex_error\<close> thrown while the rewritten template is
  compiled leaves it; the messages it logs at level DEBUG are not modelled.\<close>

definition http_route :: "string \<Rightarrow> 'c \<Rightarrow> 'c handler_t \<Rightarrow> Method \<Rightarrow> regex_error + 'c http_route" where
  "http_route p ctl h m =
     (let this = rewrite_loop p
            \<lparr>is_re = False, route_method = m, route_path = p, controller = ctl, handler = h,
             names = [], re = empty_regex\<rparr>
      in if is_re this then
           (case regex_compile (route_path this) True of
              Inl e \<Rightarrow> Inl e
            | Inr rx \<Rightarrow> Inr (this\<lparr>re := rx\<rparr>))
         else Inr this)"

subsection \<open>Matching a request\<close>

text \<open>The loop \<^verbatim>\<open>for (int i = 1; i < m.size(); ++i)\<close> of \<^verbatim>\<open>http_route::matches\<close>.\<close>

function bind_loop :: "string list \<Rightarrow> smatch \<Rightarrow> nat \<Rightarrow> http_request \<Rightarrow> http_request" where
  "bind_loop ns m i req =
     (if i < msize m then
        bind_loop ns m (Suc i) (req\<lparr>parameters := (parameters req)(ns ! (i - 1) \<mapsto> str m i)\<rparr>)
      else req)"
  by pat_completeness auto
termination
  by (relation "measure (\<lambda>(ns, m, i, req). msize m - i)") auto

declare bind_loop.simps [simp del]

text \<open>\<^verbatim>\<open>http_route::matches\<close> takes the request by reference; the model returns the
  request as the call leaves it, next to the result.\<close>

definition matches :: "'c http_route \<Rightarrow> http_request \<Rightarrow> bool \<times> http_request" where
  "matches r req =
     (if route_method r \<noteq> ANY \<and> req_method req \<noteq> route_method r then (False, req)
      else if is_re r = False then (path req = route_path r, req)
      else
        (case regex_search (path req) (re r) of
           Some m \<Rightarrow>
             if msize m = length (names r) + 1 then (True, bind_loop (names r) m 1 req)
             else (False, req)
         | None \<Rightarrow> (False, req)))"

definition call :: "'c http_route \<Rightarrow> http_request \<Rightarrow> http_response \<Rightarrow> http_request \<times> http_response" where
  "call r req resp = handler r (controller r) req resp"

section \<open>Dispatch\<close>

datatype level = DEBUG | INFO | WARNING | ERROR

datatype diag =
    New_connection
  | Read_failed int
  | Read_ok int
  | Parse_failed
  | Parse_exception nat
  | Route_matched nat
  | No_route
  | Short_send int nat

text \<open>What one call of \<^verbatim>\<open>http_consumer::route\<close> did: the positions in the table of the
  routes whose handler it invoked, the request and the response as it leaves them, and
  what it logged.\<close>

record dispatch =
  called :: "nat list"
  request_out :: http_request
  response_out :: http_response
  route_log :: "(level \<times> diag) list"

fun route_loop :: "'c http_route list \<Rightarrow> nat \<Rightarrow> http_request \<Rightarrow> http_response \<Rightarrow> dispatch" where
  "route_loop [] i request response =
     \<lparr>called = [], request_out = request, response_out = not_found response,
      route_log = [(WARNING, No_route)]\<rparr>"
| "route_loop (r # rs) i request response =
     (case matches r request of
        (True, request') \<Rightarrow>
          (case call r request' response of
             (request'', response') \<Rightarrow>
               \<lparr>called = [i], request_out = request'', response_out = response',
                route_log = [(DEBUG, Route_matched i)]\<rparr>)
      | (False, request') \<Rightarrow> route_loop rs (Suc i) request' response)"

definition route :: "'c http_route list \<Rightarrow> http_request \<Rightarrow> http_response \<Rightarrow> dispatch" where
  "route routes request response = route_loop routes 0 request response"

text \<open>\<^verbatim>\<open>http_server::route\<close> appends the new route to the table.\<close>

definition server_route ::
    "'c http_route list \<Rightarrow> string \<Rightarrow> 'c \<Rightarrow> 'c handler_t \<Rightarrow> Method \<Rightarrow> regex_error + 'c http_route list" where
  "server_route routes p ctl h m =
     (case http_route p ctl h m of Inl e \<Rightarrow> Inl e | Inr r \<Rightarrow> Inr (routes @ [r]))"

section \<open>One connection\<close>

text \<open>The collaborators of \<^verbatim>\<open>http_consumer::consume\<close>. A \<^verbatim>\<open>tcp_stream\<close> answers
  \<^verbatim>\<open>receive\<close> with a count and the bytes it wrote to the buffer, and \<^verbatim>\<open>send\<close> with
  the count sent. \<^verbatim>\<open>http_request::parse\<close> fills the request and returns true, returns
  false, or throws; only a \<^verbatim>\<open>std::regex_error\<close> is caught by \<^verbatim>\<open>consume\<close>.\<close>

record tcp_stream =
  receive :: "nat \<Rightarrow> int \<times> string"
  send :: "string \<Rightarrow> int"

datatype parse_result =
    Parsed http_request
  | Parse_false
  | Throws_regex_error nat
  | Throws_other

record collaborators =
  max_size :: nat
  parse :: "string \<Rightarrow> parse_result"
  new_response :: http_response
  response_str :: "http_response \<Rightarrow> string"

datatype escaped = Uncaught_exception

record cycle =
  logged :: "(level \<times> diag) list"
  dispatched :: "dispatch option"
  sent :: "string option"

definition consume :: "collaborators \<Rightarrow> 'c http_route list \<Rightarrow> tcp_stream \<Rightarrow> escaped + cycle" where
  "consume env routes client =
     (case receive client (max_size env) of
        (read, req_buffer) \<Rightarrow>
          if read \<le> 0 then
            Inr \<lparr>logged = [(DEBUG, New_connection), (ERROR, Read_failed read)],
                 dispatched = None, sent = None\<rparr>
          else
            (case parse env (take (nat read) req_buffer) of
               Parse_false \<Rightarrow>
                 Inr \<lparr>logged = [(DEBUG, New_connection), (DEBUG, Read_ok read), (ERROR, Parse_failed)],
                      dispatched = None, sent = None\<rparr>
             | Throws_regex_error e \<Rightarrow>
                 Inr \<lparr>logged = [(DEBUG, New_connection), (DEBUG, Read_ok read),
                                (ERROR, Parse_exception e)],
                      dispatched = None, sent = None\<rparr>
             | Throws_other \<Rightarrow> Inl Uncaught_exception
             | Parsed request \<Rightarrow>
                 (let d = route routes request (new_response env);
                      res_buffer = response_str env (response_out d);
                      n = send client res_buffer
                  in Inr \<lparr>logged = [(DEBUG, New_connection), (DEBUG, Read_ok read)] @ route_log d @
                                  (if n \<noteq> int (length res_buffer)
                                   then [(ERROR, Short_send n (length res_buffer))] else []),
                          dispatched = Some d, sent = Some res_buffer\<rparr>)))"


section \<open>Sample values\<close>

definition sample_request :: "string \<Rightarrow> http_request" where
  "sample_request p = \<lparr>req_method = GET, path = p, headers = [], body = [], parameters = Map.empty\<rparr>"

definition sample_response :: http_response where
  "sample_response = \<lparr>status = HTTP_OK, resp_headers = [], resp_body = []\<rparr>"

definition say :: "string \<Rightarrow> unit handler_t" where
  "say w c rq rs = (rq, rs\<lparr>resp_body := w\<rparr>)"

definition sample_routes :: "unit http_route list" where
  "sample_routes =
     projr (server_route (projr (server_route [] ''/about'' () (say ''about'') ANY))
              ''/:page([a-z]+)'' () (say ''page'') GET)"

definition user_route :: "unit http_route" where
  "user_route = projr (http_route ''/user/:id([0-9]+)'' () (say ''user'') ANY)"


definition sample_parse :: "string \<Rightarrow> parse_result" where
  "sample_parse bytes =
     (if bytes = ''GET /about'' then Parsed (sample_request ''/about'')
      else if bytes = ''GET /('' then Throws_regex_error 5
      else Parse_false)"

definition sample_env :: collaborators where
  "sample_env = \<lparr>max_size = 4096, parse = sample_parse, new_response = sample_response,
                  response_str = resp_body\<rparr>"

definition sample_client :: "int \<Rightarrow> string \<Rightarrow> tcp_stream" where
  "sample_client n bytes = \<lparr>receive = (\<lambda>k. (n, bytes)), send = (\<lambda>s. int (length s))\<rparr>"

section \<open>Properties of dispatch\<close>

lemma matches_frame: "\<not> fst (matches r req) \<Longrightarrow> snd (matches r req) = req"
  by (auto simp: matches_def split: if_splits option.splits)

lemma route_loop_miss:
  "\<forall>r \<in> set rs. \<not> fst (matches r req) \<Longrightarrow>
     route_loop rs i req resp =
       \<lparr>called = [], request_out = req, response_out = not_found resp,
        route_log = [(WARNING, No_route)]\<rparr>"
proof (induction rs arbitrary: i)
  case Nil
  then show ?case by simp
next
  case (Cons r rs)
  from Cons.prems have f: "\<not> fst (matches r req)" by simp
  with matches_frame[OF f] have "matches r req = (False, req)"
    by (cases "matches r req") simp
  with Cons show ?case by simp
qed



lemma server_route_appends:
  assumes "server_route routes p ctl h m = Inr routes'"
  shows "\<exists>r. http_route p ctl h m = Inr r \<and> routes' = routes @ [r]
           \<and> (\<forall>i < length routes. routes' ! i = routes ! i) \<and> routes' ! length routes = r"
  using assms by (auto simp: server_route_def nth_append split: sum.splits)




text \<open>C7. When no route of the table matches the request, \<^verbatim>\<open>http_consumer::route\<close>
  invokes no handler and makes the response a not-found response; the request is left
  as it was.\<close>

theorem route_miss_not_found:
  assumes "\<forall>r \<in> set routes. \<not> fst (matches r req)"
  shows "called (route routes req resp) = []
         \<and> response_out (route routes req resp) = not_found resp
         \<and> status (response_out (route routes req resp)) = HTTP_NOT_FOUND
         \<and> request_out (route routes req resp) = req"
  using route_loop_miss[OF assms, of 0 resp] by (simp add: route_def not_found_def)

theorem route_miss_not_found_witness:
  "length sample_routes = 2
   \<and> \<not> fst (matches (sample_routes ! 0) (sample_request ''/42''))
   \<and> \<not> fst (matches (sample_routes ! 1) (sample_request ''/42''))
   \<and> called (route sample_routes (sample_request ''/42'') sample_response) = []
   \<and> response_out (route sample_routes (sample_request ''/42'') sample_response)
       = not_found sample_response
   \<and> status (response_out (route sample_routes (sample_request ''/42'') sample_response))
       = HTTP_NOT_FOUND
   \<and> request_out (route sample_routes (sample_request ''/42'') sample_response)
       = sample_request ''/42''"
proof -
  have l: "length sample_routes = 2" by code_simp
  have m0: "\<not> fst (matches (sample_routes ! 0) (sample_request ''/42''))" by code_simp
  have m1: "\<not> fst (matches (sample_routes ! 1) (sample_request ''/42''))" by code_simp
  have h: "\<forall>r \<in> set sample_routes. \<not> fst (matches r (sample_request ''/42''))"
    by code_simp
  from route_miss_not_found[OF h, of sample_response] l m0 m1 show ?thesis by blast
qed

section \<open>Properties of the connection cycle\<close>

text \<open>C8. When the first read of a connection returns zero or a negative count,
  \<^verbatim>\<open>http_consumer::consume\<close> logs the failure and returns: nothing is parsed, nothing is
  dispatched and nothing is sent.\<close>

theorem consume_read_failure:
  assumes "fst (receive client (max_size env)) \<le> 0"
  shows "consume env routes client =
           Inr \<lparr>logged = [(DEBUG, New_connection),
                            (ERROR, Read_failed (fst (receive client (max_size env))))],
                dispatched = None, sent = None\<rparr>"
  using assms by (cases "receive client (max_size env)") (simp add: consume_def)

theorem consume_read_failure_witness:
  "fst (receive (sample_client 0 []) (max_size sample_env)) \<le> 0
   \<and> consume sample_env sample_routes (sample_client 0 []) =
       Inr \<lparr>logged = [(DEBUG, New_connection),
                        (ERROR, Read_failed (fst (receive (sample_client 0 []) (max_size sample_env))))],
            dispatched = None, sent = None\<rparr>"
proof -
  have h: "fst (receive (sample_client 0 []) (max_size sample_env)) \<le> 0"
    by (simp add: sample_client_def)
  from consume_read_failure[OF h, of sample_routes] h show ?thesis by blast
qed



section \<open>Properties of matching\<close>

lemma bind_loop_frame: "\<exists>ps. bind_loop ns m i req = req\<lparr>parameters := ps\<rparr>"
proof (induction ns m i req rule: bind_loop.induct)
  case (1 ns m i req)
  show ?case
  proof (cases "i < msize m")
    case True
    from 1[OF True] obtain ps where
      "bind_loop ns m (Suc i) (req\<lparr>parameters := (parameters req)(ns ! (i - 1) \<mapsto> str m i)\<rparr>)
         = req\<lparr>parameters := ps\<rparr>"
      by auto
    with True show ?thesis by (subst bind_loop.simps) auto
  next
    case False
    then have "bind_loop ns m i req = req\<lparr>parameters := parameters req\<rparr>"
      by (subst bind_loop.simps) simp
    then show ?thesis by blast
  qed
qed

text \<open>C10. Whenever \<^verbatim>\<open>http_route::matches\<close> returns false the request is unchanged, and
  in every case the only member of the request it can change is \<open>parameters\<close>.\<close>

theorem matches_false_leaves_request:
  "(\<not> fst (matches r req) \<longrightarrow> snd (matches r req) = req)
   \<and> (\<exists>ps. snd (matches r req) = req\<lparr>parameters := ps\<rparr>)"
proof
  show "\<not> fst (matches r req) \<longrightarrow> snd (matches r req) = req"
    by (auto simp: matches_def split: if_splits option.splits)
next
  have "req = req\<lparr>parameters := parameters req\<rparr>" by simp
  then have same: "\<exists>ps. req = req\<lparr>parameters := ps\<rparr>" by blast
  show "\<exists>ps. snd (matches r req) = req\<lparr>parameters := ps\<rparr>"
    using same bind_loop_frame[of "names r" _ 1 req]
    by (auto simp: matches_def split: if_splits option.splits)
qed

theorem matches_false_leaves_request_witness:
  "\<not> fst (matches (sample_routes ! 1) (sample_request ''/42''))
   \<and> snd (matches (sample_routes ! 1) (sample_request ''/42'')) = sample_request ''/42''"
proof -
  have h: "\<not> fst (matches (sample_routes ! 1) (sample_request ''/42''))" by code_simp
  from matches_false_leaves_request[of "sample_routes ! 1" "sample_request ''/42''"] h
  show ?thesis by blast
qed


lemma bind_loop_fold:
  "bind_loop ns m i req =
     req\<lparr>parameters := fold (\<lambda>j ps. ps(ns ! (j - 1) \<mapsto> str m j)) [i..<msize m] (parameters req)\<rparr>"
proof (induction ns m i req rule: bind_loop.induct)
  case (1 ns m i req)
  show ?case
  proof (cases "i < msize m")
    case True
    then have u: "[i..<msize m] = i # [Suc i..<msize m]" by (rule upt_conv_Cons)
    define f where "f = (\<lambda>j ps. ps(ns ! (j - 1) \<mapsto> str m j))"
    let ?req = "req\<lparr>parameters := f i (parameters req)\<rparr>"
    have "bind_loop ns m i req = bind_loop ns m (Suc i) ?req"
      using True by (subst bind_loop.simps) (simp add: f_def)
    also have "\<dots> = ?req\<lparr>parameters := fold f [Suc i..<msize m] (parameters ?req)\<rparr>"
      using 1[OF True] unfolding f_def .
    also have "\<dots> = req\<lparr>parameters := fold f [i..<msize m] (parameters req)\<rparr>"
      unfolding u by simp
    finally show ?thesis unfolding f_def .
  next
    case False
    then show ?thesis by (subst bind_loop.simps) simp
  qed
qed

lemma matches_binds:
  assumes "is_re r" "fst (matches r req)"
  shows "\<exists>m. regex_search (path req) (re r) = Some m \<and> msize m = length (names r) + 1
           \<and> snd (matches r req) =
               req\<lparr>parameters := fold (\<lambda>j ps. ps(names r ! (j - 1) \<mapsto> str m j)) [1..<msize m]
                                      (parameters req)\<rparr>"
proof -
  from assms obtain m where s: "regex_search (path req) (re r) = Some m"
    and sz: "msize m = length (names r) + 1"
    by (auto simp: matches_def split: if_splits option.splits)
  with assms have "snd (matches r req) = bind_loop (names r) m 1 req"
    by (auto simp: matches_def split: if_splits)
  with s sz show ?thesis by (simp add: bind_loop_fold)
qed

lemma user_template:
  "http_route ''/user/:id([0-9]+)'' ctl h ANY =
     Inr \<lparr>is_re = True, route_method = ANY, route_path = ''/user/([0-9]+)'', controller = ctl,
          handler = h, names = [''id''], re = projr (regex_compile ''/user/([0-9]+)'' True)\<rparr>"
proof -
  have s1: "regex_search ''/user/:id([0-9]+)'' NAMED_PARAM_PARSER =
      Some \<lparr>prefix = ''/user/'', whole = '':id([0-9]+)'',
            subs = [Some ''id'', Some ''[0-9]+''], suffix = []\<rparr>"
    by code_simp
  have s0: "regex_search [] NAMED_PARAM_PARSER = None" by code_simp
  have rp: "replace ''/user/:id([0-9]+)'' '':id([0-9]+)'' ''([0-9]+)'' = ''/user/([0-9]+)''"
    by code_simp
  have c: "\<not> isl (regex_compile ''/user/([0-9]+)'' True)" by code_simp
  then obtain rx where rx: "regex_compile ''/user/([0-9]+)'' True = Inr rx"
    by (cases "regex_compile ''/user/([0-9]+)'' True") simp_all
  show ?thesis
    by (simp add: http_route_def rewrite_loop.simps[of "''/user/:id([0-9]+)''"]
          rewrite_loop.simps[of "[]"] s1 s0 msize_def str_def rp rx)
qed


lemma user_template_matches:
  fixes ctl :: 'c and h :: "'c handler_t"
  defines "r \<equiv> \<lparr>is_re = True, route_method = ANY, route_path = ''/user/([0-9]+)'',
          controller = ctl, handler = h, names = [''id''],
          re = projr (regex_compile ''/user/([0-9]+)'' True)\<rparr>"
  shows "matches r (sample_request ''/user/42'') =
           (True, (sample_request ''/user/42'')\<lparr>parameters := [''id'' \<mapsto> ''42'']\<rparr>)"
    and "\<not> fst (matches r (sample_request ''/user/abc''))"
proof -
  have s1: "regex_search ''/user/42'' (projr (regex_compile ''/user/([0-9]+)'' True)) =
      Some \<lparr>prefix = [], whole = ''/user/42'', subs = [Some ''42''], suffix = []\<rparr>"
    by code_simp
  have s2: "regex_search ''/user/abc'' (projr (regex_compile ''/user/([0-9]+)'' True)) = None"
    by code_simp
  show "matches r (sample_request ''/user/42'') =
           (True, (sample_request ''/user/42'')\<lparr>parameters := [''id'' \<mapsto> ''42'']\<rparr>)"
    by (simp add: r_def matches_def sample_request_def s1 msize_def bind_loop_fold str_def)
  show "\<not> fst (matches r (sample_request ''/user/abc''))"
    by (simp add: r_def matches_def sample_request_def s2)
qed

lemma pair_template:
  "http_route ''/:a([a-z]+)/:b([0-9]+)'' ctl h ANY =
     Inr \<lparr>is_re = True, route_method = ANY, route_path = ''/([a-z]+)/([0-9]+)'',
          controller = ctl, handler = h, names = [''a'', ''b''],
          re = projr (regex_compile ''/([a-z]+)/([0-9]+)'' True)\<rparr>"
proof -
  have s1: "regex_search ''/:a([a-z]+)/:b([0-9]+)'' NAMED_PARAM_PARSER =
      Some \<lparr>prefix = ''/'', whole = '':a([a-z]+)'',
            subs = [Some ''a'', Some ''[a-z]+''], suffix = ''/:b([0-9]+)''\<rparr>"
    by code_simp
  have s2: "regex_search ''/:b([0-9]+)'' NAMED_PARAM_PARSER =
      Some \<lparr>prefix = ''/'', whole = '':b([0-9]+)'',
            subs = [Some ''b'', Some ''[0-9]+''], suffix = []\<rparr>"
    by code_simp
  have s0: "regex_search [] NAMED_PARAM_PARSER = None" by code_simp
  have rp1: "replace ''/:a([a-z]+)/:b([0-9]+)'' '':a([a-z]+)'' ''([a-z]+)'' = ''/([a-z]+)/:b([0-9]+)''"
    by code_simp
  have rp2: "replace ''/([a-z]+)/:b([0-9]+)'' '':b([0-9]+)'' ''([0-9]+)'' = ''/([a-z]+)/([0-9]+)''"
    by code_simp
  have c: "\<not> isl (regex_compile ''/([a-z]+)/([0-9]+)'' True)" by code_simp
  then obtain rx where rx: "regex_compile ''/([a-z]+)/([0-9]+)'' True = Inr rx"
    by (cases "regex_compile ''/([a-z]+)/([0-9]+)'' True") simp_all
  show ?thesis
    by (simp add: http_route_def rewrite_loop.simps[of "''/:a([a-z]+)/:b([0-9]+)''"]
          rewrite_loop.simps[of "''/:b([0-9]+)''"]
          rewrite_loop.simps[of "[]"] s1 s2 s0 msize_def str_def rp1 rp2 rx)
qed

lemma pair_template_matches:
  fixes ctl :: 'c and h :: "'c handler_t"
  defines "r \<equiv> \<lparr>is_re = True, route_method = ANY, route_path = ''/([a-z]+)/([0-9]+)'',
          controller = ctl, handler = h, names = [''a'', ''b''],
          re = projr (regex_compile ''/([a-z]+)/([0-9]+)'' True)\<rparr>"
  shows "matches r (sample_request ''/foo/7'') =
           (True, (sample_request ''/foo/7'')\<lparr>parameters := [''a'' \<mapsto> ''foo'', ''b'' \<mapsto> ''7'']\<rparr>)"
proof -
  have s1: "regex_search ''/foo/7'' (projr (regex_compile ''/([a-z]+)/([0-9]+)'' True)) =
      Some \<lparr>prefix = [], whole = ''/foo/7'', subs = [Some ''foo'', Some ''7''], suffix = []\<rparr>"
    by code_simp
  have u: "[1..<3] = [1, 2::nat]" by (simp add: upt_rec)
  show ?thesis
    by (simp add: r_def matches_def sample_request_def s1 msize_def bind_loop_fold str_def u)
qed

text \<open>C2. A successful match of a regex route binds the groups of the match, in their
  order, to the names of the route, in theirs. The template \<^verbatim>\<open>/user/:id([0-9]+)\<close> has
  the one name \<open>id\<close>, matches \<^verbatim>\<open>/user/42\<close> with parameters \<open>{id: 42}\<close> and does not match
  \<^verbatim>\<open>/user/abc\<close>; the template \<^verbatim>\<open>/:a([a-z]+)/:b([0-9]+)\<close> has the names \<open>a, b\<close> and matches
  \<^verbatim>\<open>/foo/7\<close> with parameters \<open>{a: foo, b: 7}\<close>.\<close>

theorem named_parameters_bound:
  "(\<forall>r req. is_re r \<and> fst (matches r req) \<longrightarrow>
      (\<exists>m. regex_search (path req) (re r) = Some m \<and> msize m = length (names r) + 1
         \<and> snd (matches r req) =
             req\<lparr>parameters := fold (\<lambda>j ps. ps(names r ! (j - 1) \<mapsto> str m j)) [1..<msize m]
                                    (parameters req)\<rparr>))
   \<and> (\<exists>r. http_route ''/user/:id([0-9]+)'' ctl h ANY = Inr r \<and> names r = [''id'']
        \<and> matches r (sample_request ''/user/42'') =
            (True, (sample_request ''/user/42'')\<lparr>parameters := [''id'' \<mapsto> ''42'']\<rparr>)
        \<and> \<not> fst (matches r (sample_request ''/user/abc'')))
   \<and> (\<exists>r. http_route ''/:a([a-z]+)/:b([0-9]+)'' ctl h ANY = Inr r \<and> names r = [''a'', ''b'']
        \<and> matches r (sample_request ''/foo/7'') =
            (True, (sample_request ''/foo/7'')\<lparr>parameters := [''a'' \<mapsto> ''foo'', ''b'' \<mapsto> ''7'']\<rparr>))"
proof (intro conjI)
  show "\<forall>r req. is_re r \<and> fst (matches r req) \<longrightarrow>
      (\<exists>m. regex_search (path req) (re r) = Some m \<and> msize m = length (names r) + 1
         \<and> snd (matches r req) =
             req\<lparr>parameters := fold (\<lambda>j ps. ps(names r ! (j - 1) \<mapsto> str m j)) [1..<msize m]
                                    (parameters req)\<rparr>)"
    using matches_binds by blast
next
  show "\<exists>r. http_route ''/user/:id([0-9]+)'' ctl h ANY = Inr r \<and> names r = [''id'']
        \<and> matches r (sample_request ''/user/42'') =
            (True, (sample_request ''/user/42'')\<lparr>parameters := [''id'' \<mapsto> ''42'']\<rparr>)
        \<and> \<not> fst (matches r (sample_request ''/user/abc''))"
    using user_template[of ctl h] user_template_matches[of ctl h] by simp
next
  show "\<exists>r. http_route ''/:a([a-z]+)/:b([0-9]+)'' ctl h ANY = Inr r \<and> names r = [''a'', ''b'']
        \<and> matches r (sample_request ''/foo/7'') =
            (True, (sample_request ''/foo/7'')\<lparr>parameters := [''a'' \<mapsto> ''foo'', ''b'' \<mapsto> ''7'']\<rparr>)"
    using pair_template[of ctl h] pair_template_matches[of ctl h] by simp
qed


theorem named_parameters_bound_witness:
  "is_re user_route \<and> fst (matches user_route (sample_request ''/user/42''))
   \<and> (\<exists>m. regex_search (path (sample_request ''/user/42'')) (re user_route) = Some m
         \<and> msize m = length (names user_route) + 1
         \<and> snd (matches user_route (sample_request ''/user/42'')) =
             (sample_request ''/user/42'')
               \<lparr>parameters := fold (\<lambda>j ps. ps(names user_route ! (j - 1) \<mapsto> str m j)) [1..<msize m]
                                 (parameters (sample_request ''/user/42''))\<rparr>)"
proof -
  have h: "is_re user_route \<and> fst (matches user_route (sample_request ''/user/42''))"
    by code_simp
  from named_parameters_bound[THEN conjunct1, rule_format, OF h] h show ?thesis by blast
qed

lemma match_here_None_iff:
  "match_here rx pre s = None \<longleftrightarrow>
     ms (icase rx) (ast rx) (s, replicate (mark_count rx) None) = []"
  by (auto simp: match_here_def split: list.splits)

lemma search_from_None_iff:
  "search_from rx pre s = None \<longleftrightarrow>
     (\<forall>i \<le> length s. ms (icase rx) (ast rx) (drop i s, replicate (mark_count rx) None) = [])"
proof (induction s arbitrary: pre)
  case Nil
  then show ?case by (simp add: match_here_None_iff)
next
  case (Cons x xs)
  let ?E = "\<lambda>t. ms (icase rx) (ast rx) (t, replicate (mark_count rx) None) = []"
  have "search_from rx pre (x # xs) = None \<longleftrightarrow>
          ?E (x # xs) \<and> search_from rx (pre @ [x]) xs = None"
    using match_here_None_iff[of rx pre "x # xs"]
    by (cases "match_here rx pre (x # xs)") auto
  also have "\<dots> \<longleftrightarrow> ?E (x # xs) \<and> (\<forall>i \<le> length xs. ?E (drop i xs))"
    by (simp only: Cons.IH)
  also have "\<dots> \<longleftrightarrow> (\<forall>i \<le> length (x # xs). ?E (drop i (x # xs)))"
  proof
    assume a: "?E (x # xs) \<and> (\<forall>i \<le> length xs. ?E (drop i xs))"
    show "\<forall>i \<le> length (x # xs). ?E (drop i (x # xs))"
    proof (intro allI impI)
      fix i assume "i \<le> length (x # xs)"
      with a show "?E (drop i (x # xs))" by (cases i) simp_all
    qed
  next
    assume b: "\<forall>i \<le> length (x # xs). ?E (drop i (x # xs))"
    from b[rule_format, of 0] have "?E (x # xs)" by simp
    moreover have "\<forall>i \<le> length xs. ?E (drop i xs)"
    proof (intro allI impI)
      fix i assume "i \<le> length xs"
      with b[rule_format, of "Suc i"] show "?E (drop i xs)" by simp
    qed
    ultimately show "?E (x # xs) \<and> (\<forall>i \<le> length xs. ?E (drop i xs))" by blast
  qed
  finally show ?case .
qed






section \<open>Properties of route compilation\<close>

lemma regex_search_has_token:
  assumes "regex_search p NAMED_PARAM_PARSER = Some m"
  shows "has_token p"
  using regex_search_token[OF assms] unfolding has_token_def by blast

lemma has_token_colon: "has_token p \<Longrightarrow> CHR '':'' \<in> set p"
  by (auto simp: has_token_def is_token_def)

lemma rewrite_loop_no_token:
  "\<not> has_token p \<Longrightarrow> rewrite_loop p this = this"
  using regex_search_has_token[of p]
  by (cases "regex_search p NAMED_PARAM_PARSER") (auto simp: rewrite_loop.simps[of p])

text \<open>C3. A template that holds no token \<^verbatim>\<open>:name(regex)\<close> is compiled to a literal
  route, and such a route matches a request exactly when its method is \<open>ANY\<close> or the
  method of the request, and the path of the request is the template, character for
  character.\<close>

theorem literal_route_matches:
  assumes "\<not> has_token P"
  shows "\<exists>r. http_route P ctl h m = Inr r \<and> is_re r = False \<and> route_path r = P
           \<and> (\<forall>req. fst (matches r req) \<longleftrightarrow>
                 (m = ANY \<or> req_method req = m) \<and> path req = P)"
proof -
  let ?r = "\<lparr>is_re = False, route_method = m, route_path = P, controller = ctl, handler = h,
             names = [], re = empty_regex\<rparr>"
  have c: "http_route P ctl h m = Inr ?r"
    by (simp add: http_route_def rewrite_loop_no_token[OF assms])
  have "\<forall>req. fst (matches ?r req) \<longleftrightarrow> (m = ANY \<or> req_method req = m) \<and> path req = P"
    by (auto simp: matches_def)
  with c show ?thesis by simp
qed

theorem literal_route_matches_witness:
  "\<not> has_token ''/about''
   \<and> (\<exists>r. http_route ''/about'' () (say ''about'') GET = Inr r \<and> is_re r = False
         \<and> route_path r = ''/about''
         \<and> (\<forall>req. fst (matches r req) \<longleftrightarrow>
               (GET = ANY \<or> req_method req = GET) \<and> path req = ''/about''))"
proof -
  have h: "\<not> has_token ''/about''" using has_token_colon[of "''/about''"] by auto
  from literal_route_matches[OF h, of "()" "say ''about''" GET] h show ?thesis by blast
qed

lemma rewrite_loop_names:
  "length (names (rewrite_loop tmp this)) \<le> length (names this) + length tmp div 4"
proof (induction tmp this rule: rewrite_loop.induct)
  case (1 tmp this)
  show ?case
  proof (cases "regex_search tmp NAMED_PARAM_PARSER")
    case None
    then show ?thesis by (simp add: rewrite_loop.simps[of tmp])
  next
    case (Some m)
    from regex_search_token[OF Some] have sz: "msize m = 3" by simp
    let ?nxt = "this\<lparr>is_re := True,
        route_path := replace (route_path this) (str m 0) (''('' @ str m 2 @ '')''),
        names := names this @ [str m 1]\<rparr>"
    from "1.IH"[OF Some sz]
    have "length (names (rewrite_loop (suffix m) ?nxt))
            \<le> Suc (length (names this)) + length (suffix m) div 4"
      by simp
    moreover from regex_search_progress[OF Some]
    have "Suc (length (suffix m) div 4) \<le> length tmp div 4" by arith
    moreover from Some sz have "rewrite_loop tmp this = rewrite_loop (suffix m) ?nxt"
      by (simp add: rewrite_loop.simps[of tmp])
    ultimately show ?thesis by simp
  qed
qed

text \<open>C6. The rewrite loop of the constructor makes progress on every template: each
  iteration goes on with the text after the token it found, which is shorter than the
  text it searched, and it finds at most one token for every four characters of the
  template (every iteration adds one name).\<close>

theorem rewrite_loop_terminates:
  "(\<forall>m. regex_search tmp NAMED_PARAM_PARSER = Some m \<longrightarrow> length (suffix m) < length tmp)
   \<and> length (names (rewrite_loop tmp this)) \<le> length (names this) + length tmp div 4"
proof
  show "\<forall>m. regex_search tmp NAMED_PARAM_PARSER = Some m \<longrightarrow> length (suffix m) < length tmp"
    using regex_search_progress[of tmp] by fastforce
next
  show "length (names (rewrite_loop tmp this)) \<le> length (names this) + length tmp div 4"
    by (rule rewrite_loop_names)
qed

theorem rewrite_loop_terminates_witness:
  "regex_search '':a:a(x)(x)'' NAMED_PARAM_PARSER =
     Some \<lparr>prefix = '':a'', whole = '':a(x)'', subs = [Some ''a'', Some ''x''], suffix = ''(x)''\<rparr>
   \<and> length ''(x)'' < length '':a:a(x)(x)''
   \<and> length (names (rewrite_loop '':a:a(x)(x)'' (sample_routes ! 0)))
       \<le> length (names (sample_routes ! 0)) + length '':a:a(x)(x)'' div 4"
proof -
  have s: "regex_search '':a:a(x)(x)'' NAMED_PARAM_PARSER =
     Some \<lparr>prefix = '':a'', whole = '':a(x)'', subs = [Some ''a'', Some ''x''], suffix = ''(x)''\<rparr>"
    by code_simp
  from rewrite_loop_terminates[of "'':a:a(x)(x)''" "sample_routes ! 0"] s
  show ?thesis by simp
qed


lemma rewrite_loop_is_re_mono: "is_re this \<Longrightarrow> is_re (rewrite_loop tmp this)"
proof (induction tmp this rule: rewrite_loop.induct)
  case (1 tmp this)
  show ?case
  proof (cases "regex_search tmp NAMED_PARAM_PARSER")
    case None
    with "1.prems" show ?thesis by (simp add: rewrite_loop.simps[of tmp])
  next
    case (Some m)
    from regex_search_token[OF Some] have sz: "msize m = 3" by simp
    from "1.IH"[OF Some sz] Some sz show ?thesis
      by (simp add: rewrite_loop.simps[of tmp])
  qed
qed






subsection \<open>The token syntax is what the constructor looks for\<close>

text \<open>The search for \<open>NAMED_PARAM_PARSER\<close> succeeds on every text that holds a token, so
  a route is compiled as a regex exactly when its template holds a token.\<close>

lemma ms_Seq_mem:
  assumes "p1 \<in> set (ms ic r1 p)" "p2 \<in> set (ms ic r2 p1)"
  shows "p2 \<in> set (ms ic (Seq r1 r2) p)"
  using assms by (cases p) auto

lemma ms_Star_class:
  "\<forall>x \<in> set u. in_bracket ic neg items x \<Longrightarrow>
     (v, c) \<in> set (ms ic (Star (Bracket neg items)) (u @ v, c))"
proof (induction u)
  case Nil
  then show ?case by simp
next
  case (Cons x u)
  then have x: "in_bracket ic neg items x"
    and ih: "(v, c) \<in> set (ms ic (Star (Bracket neg items)) (u @ v, c))"
    by simp_all
  from x have one: "ms ic (Bracket neg items) ((x # u) @ v, c) = [(u @ v, c)]" by simp
  have "(v, c) \<in> set (if length (fst (u @ v, c)) < length ((x # u) @ v)
                         then ms ic (Star (Bracket neg items)) (u @ v, c) else [])"
    using ih by simp
  then show ?case
    unfolding ms.simps(7)[of ic "Bracket neg items" "(x # u) @ v" c] one by simp
qed

lemma ms_Group_mem:
  assumes "(s', c') \<in> set (ms ic r (s, c))"
  shows "(s', c'[n - 1 := Some (take (length s - length s') s)]) \<in> set (ms ic (Group n r) (s, c))"
proof -
  let ?g = "\<lambda>p. (fst p, (snd p)[n - 1 := Some (take (length s - length (fst p)) s)])"
  from assms have "?g (s', c') \<in> ?g ` set (ms ic r (s, c))" by (rule imageI)
  then show ?thesis by simp
qed

lemma class_name:
  assumes "is_name_char x"
  shows "in_bracket True False [CChar CHR ''_'', CRange CHR ''a'' CHR ''z'', CRange CHR ''0'' CHR ''9''] x"
proof -
  have lo: "code (tolower x) = (if is_upper x then code x + 32 else code x)"
    by (simp add: tolower_def code_def is_upper_def)
  have cs: "code CHR ''a'' = 97" "code CHR ''z'' = 122" "code CHR ''0'' = 48"
    "code CHR ''9'' = 57"
    by (simp_all add: code_def)
  from assms show ?thesis
    unfolding in_bracket_def is_name_char_def is_alnum_def
    by (auto simp: in_range_def lo cs eq_char_def is_upper_def is_lower_def is_digit_def)
qed

lemma class_not_paren:
  assumes "x \<noteq> CHR '')''"
  shows "in_bracket True True [CChar CHR '')''] x"
proof -
  have "\<not> eq_char True CHR '')'' x"
    using assms eq_char_caseless[of "CHR '')''" x]
    by (auto simp: is_upper_def is_lower_def code_def)
  then show ?thesis by (simp add: in_bracket_def)
qed

lemma eq_char_refl: "eq_char ic a a"
  by (simp add: eq_char_def)

lemma token_matched:
  assumes "is_token w"
  shows "ms (icase NAMED_PARAM_PARSER) (ast NAMED_PARAM_PARSER)
           (w @ post, replicate (mark_count NAMED_PARAM_PARSER) None) \<noteq> []"
proof -
  let ?N = "Bracket False [CChar CHR ''_'', CRange CHR ''a'' CHR ''z'', CRange CHR ''0'' CHR ''9'']"
  let ?E = "Bracket True [CChar CHR '')'']"
  let ?c0 = "[None, None] :: captures"
  from assms obtain x n2 expr where w: "w = '':'' @ (x # n2) @ ''('' @ expr @ '')''"
    and x: "is_name_char x" and n2: "\<forall>c \<in> set n2. is_name_char c"
    and e: "CHR '')'' \<notin> set expr"
    by (auto simp: is_token_def neq_Nil_conv)
  let ?s1 = "(x # n2) @ ''('' @ expr @ '')'' @ post"
  let ?s2 = "''('' @ expr @ '')'' @ post"
  let ?s3 = "expr @ '')'' @ post"
  let ?s4 = "'')'' @ post"
  have a1: "(?s1, ?c0) \<in> set (ms True (Chr CHR '':'') ('':'' @ ?s1, ?c0))"
    by (simp add: eq_char_refl)
  have "(n2 @ ?s2, ?c0) \<in> set (ms True ?N (?s1, ?c0))"
    using class_name[OF x] by simp
  moreover have "(?s2, ?c0) \<in> set (ms True (Star ?N) (n2 @ ?s2, ?c0))"
  proof (rule ms_Star_class, rule ballI)
    fix c assume "c \<in> set n2"
    with n2 have "is_name_char c" by (rule bspec)
    then show "in_bracket True False
        [CChar CHR ''_'', CRange CHR ''a'' CHR ''z'', CRange CHR ''0'' CHR ''9''] c"
      by (rule class_name)
  qed
  ultimately have "(?s2, ?c0) \<in> set (ms True (Seq ?N (Star ?N)) (?s1, ?c0))"
    by (rule ms_Seq_mem)
  from ms_Group_mem[OF this, of 1] obtain c1 where
    a2: "(?s2, c1) \<in> set (ms True (Group 1 (Seq ?N (Star ?N))) (?s1, ?c0))"
    by blast
  have a3: "(?s3, c1) \<in> set (ms True (Chr CHR ''('') (?s2, c1))"
    by (simp add: eq_char_refl)
  have "(?s4, c1) \<in> set (ms True (Star ?E) (?s3, c1))"
  proof (rule ms_Star_class, rule ballI)
    fix c assume "c \<in> set expr"
    with e have "c \<noteq> CHR '')''" by blast
    then show "in_bracket True True [CChar CHR '')''] c" by (rule class_not_paren)
  qed
  from ms_Group_mem[OF this, of 2] obtain c2 where
    a4: "(?s4, c2) \<in> set (ms True (Group 2 (Star ?E)) (?s3, c1))"
    by blast
  have a5: "(post, c2) \<in> set (ms True (Chr CHR '')'') (?s4, c2))"
    by (simp add: eq_char_refl)
  have "(post, c2) \<in> set (ms True
      (Seq (Chr CHR '':'') (Seq (Group 1 (Seq ?N (Star ?N)))
        (Seq (Chr CHR ''('') (Seq (Group 2 (Star ?E)) (Chr CHR '')'')))))
      ('':'' @ ?s1, ?c0))"
    by (rule ms_Seq_mem[OF a1 ms_Seq_mem[OF a2 ms_Seq_mem[OF a3 ms_Seq_mem[OF a4 a5]]]])
  moreover have "replicate (mark_count NAMED_PARAM_PARSER) None = ?c0"
    by (simp add: NAMED_PARAM_PARSER_eq numeral_2_eq_2)
  moreover have "w @ post = '':'' @ ?s1" using w by simp
  ultimately show ?thesis
    unfolding NAMED_PARAM_PARSER_eq by (auto simp del: ms.simps)
qed

lemma has_token_regex_search:
  assumes "has_token p"
  shows "\<exists>m. regex_search p NAMED_PARAM_PARSER = Some m"
proof -
  from assms obtain pre w post where p: "p = pre @ w @ post" and w: "is_token w"
    unfolding has_token_def by blast
  have "drop (length pre) p = w @ post" using p by simp
  with token_matched[OF w, of post]
  have "ms (icase NAMED_PARAM_PARSER) (ast NAMED_PARAM_PARSER)
          (drop (length pre) p, replicate (mark_count NAMED_PARAM_PARSER) None) \<noteq> []"
    by simp
  moreover have "length pre \<le> length p" using p by simp
  ultimately have "search_from NAMED_PARAM_PARSER [] p \<noteq> None"
    unfolding search_from_None_iff by blast
  then show ?thesis by (auto simp: regex_search_def)
qed

lemma http_route_is_re_iff:
  assumes "http_route P ctl h m = Inr r"
  shows "is_re r \<longleftrightarrow> has_token P"
proof -
  let ?init = "\<lparr>is_re = False, route_method = m, route_path = P, controller = ctl, handler = h,
             names = [], re = empty_regex\<rparr>"
  from assms have r: "is_re r = is_re (rewrite_loop P ?init)"
    by (auto simp: http_route_def Let_def split: if_splits sum.splits)
  show ?thesis
  proof (cases "has_token P")
    case False
    with r rewrite_loop_no_token[of P ?init] show ?thesis by simp
  next
    case True
    from has_token_regex_search[OF True] obtain mt where
      s: "regex_search P NAMED_PARAM_PARSER = Some mt"
      by blast
    from regex_search_token[OF s] have sz: "msize mt = 3" by simp
    let ?nxt = "?init\<lparr>is_re := True,
        route_path := replace (route_path ?init) (str mt 0) (''('' @ str mt 2 @ '')''),
        names := names ?init @ [str mt 1]\<rparr>"
    from s sz have "rewrite_loop P ?init = rewrite_loop (suffix mt) ?nxt"
      by (simp add: rewrite_loop.simps[of P])
    moreover have "is_re (rewrite_loop (suffix mt) ?nxt)"
      by (rule rewrite_loop_is_re_mono) simp
    ultimately show ?thesis using r True by simp
  qed
qed

end
